theory Spec2Isabelle
  imports Main "HOL-Library.Word" "HOL-Library.Monad_Syntax"
begin

unbundle bit_operations_syntax

section \<open>Configuration constants (Core/Inc/icled.h)\<close>

text \<open>
  The driver keeps two statically allocated arrays, \<^verbatim>\<open>uint16_t pwm_buffer[ICLED_BUFFER_SIZE]\<close>
  and \<^verbatim>\<open>uint8_t led_data[ICLED_LED_COUNT][3]\<close>. The sizes and the two duty-cycle codes
  are the macros of the header, with the values the header gives them.
\<close>

type_synonym u8 = "8 word"
type_synonym u16 = "16 word"
type_synonym u32 = "32 word"
type_synonym s8 = "8 word"

definition ICLED_LED_COUNT :: nat where
  "ICLED_LED_COUNT = 105"

definition ICLED_RESET_SLOTS :: nat where
  "ICLED_RESET_SLOTS = 200"

definition ICLED_BITS_PER_LED :: nat where
  "ICLED_BITS_PER_LED = 24"

definition ICLED_TIMING_BITS :: nat where
  "ICLED_TIMING_BITS = ICLED_LED_COUNT * ICLED_BITS_PER_LED"

definition ICLED_BUFFER_SIZE :: nat where
  "ICLED_BUFFER_SIZE = ICLED_TIMING_BITS + ICLED_RESET_SLOTS"

definition ICLED_PWM_0 :: u16 where
  "ICLED_PWM_0 = 13"

definition ICLED_PWM_1 :: u16 where
  "ICLED_PWM_1 = 26"

section \<open>Driver state and observable actions (Core/Src/icled.c)\<close>

text \<open>
  The DMA engine reads \<^verbatim>\<open>pwm_buffer\<close> while the processor runs, so a store into the buffer
  is as observable from the hardware side as a call into the timer HAL. The model therefore
  records both in one trace, in program order:
  \<^item> \<open>Buf_Write p v\<close>: the statement \<^verbatim>\<open>pwm_buffer[p] = v\<close> was executed;
  \<^item> \<open>HAL_TIM_PWM_Stop_DMA\<close>: the call \<^verbatim>\<open>HAL_TIM_PWM_Stop_DMA(&htim1, TIM_CHANNEL_1)\<close>;
  \<^item> \<open>HAL_TIM_PWM_Start_DMA a n\<close>: the call
    \<^verbatim>\<open>HAL_TIM_PWM_Start_DMA(&htim1, TIM_CHANNEL_1, (uint32_t*)pwm_buffer + a, n)\<close>, that is,
    \<open>a\<close> is the element offset of the pointer argument from the base of \<^verbatim>\<open>pwm_buffer\<close>
    (the driver always passes the base, offset 0) and \<open>n\<close> is the length argument.
  The HAL functions themselves belong to the vendor library; the driver ignores their return
  values, so a call is modelled by its trace entry alone.
\<close>

datatype event =
    Buf_Write nat u16
  | HAL_TIM_PWM_Stop_DMA
  | HAL_TIM_PWM_Start_DMA nat nat

record icled_state =
  pwm_buffer :: "u16 list"
  led_data :: "u8 list list"
  hw_trace :: "event list"

text \<open>
  The two C arrays have fixed sizes. A state is well formed when the lists that stand for
  them have exactly these sizes.
\<close>

definition wf_state :: "icled_state \<Rightarrow> bool" where
  "wf_state s \<longleftrightarrow>
     length (pwm_buffer s) = ICLED_BUFFER_SIZE \<and>
     length (led_data s) = ICLED_LED_COUNT \<and>
     list_all (\<lambda>px. length px = 3) (led_data s)"

text \<open>
  Array accesses. C leaves an access outside an array undefined; the model makes it a
  fault, the result \<open>None\<close>, so that "the code stays inside its arrays" is something the
  theorems below have to establish.
\<close>

definition pwm_write :: "u32 \<Rightarrow> u16 \<Rightarrow> icled_state \<Rightarrow> icled_state option" where
  "pwm_write pos v s =
     (if unat pos < length (pwm_buffer s)
      then Some (s\<lparr>pwm_buffer := (pwm_buffer s)[unat pos := v],
                  hw_trace := hw_trace s @ [Buf_Write (unat pos) v]\<rparr>)
      else None)"

definition led_read :: "u16 \<Rightarrow> u8 \<Rightarrow> icled_state \<Rightarrow> u8 option" where
  "led_read i c s =
     (if unat i < length (led_data s) \<and> unat c < length (led_data s ! unat i)
      then Some (led_data s ! unat i ! unat c)
      else None)"

definition led_write :: "u16 \<Rightarrow> nat \<Rightarrow> u8 \<Rightarrow> icled_state \<Rightarrow> icled_state option" where
  "led_write i c v s =
     (if unat i < length (led_data s) \<and> c < length (led_data s ! unat i)
      then Some (s\<lparr>led_data := (led_data s)[unat i := (led_data s ! unat i)[c := v]]\<rparr>)
      else None)"

definition hal_call :: "event \<Rightarrow> icled_state \<Rightarrow> icled_state" where
  "hal_call e s = s\<lparr>hw_trace := hw_trace s @ [e]\<rparr>"

subsection \<open>\<^verbatim>\<open>ICLED_SetPixel\<close>\<close>

text \<open>
  \<^verbatim>\<open>
  void ICLED_SetPixel(uint16_t index, uint8_t r, uint8_t g, uint8_t b)
  {
      if (index >= ICLED_LED_COUNT) return;
      led_data[index][0] = g; // GRB!
      led_data[index][1] = r;
      led_data[index][2] = b;
  }
  \<close>
\<close>

definition ICLED_SetPixel :: "u16 \<Rightarrow> u8 \<Rightarrow> u8 \<Rightarrow> u8 \<Rightarrow> icled_state \<Rightarrow> icled_state option" where
  "ICLED_SetPixel index r g b s =
     (if ICLED_LED_COUNT \<le> unat index then Some s
      else do {
        s1 \<leftarrow> led_write index 0 g s;
        s2 \<leftarrow> led_write index 1 r s1;
        led_write index 2 b s2
      })"

subsection \<open>\<^verbatim>\<open>ICLED_Show\<close>\<close>

text \<open>
  \<^verbatim>\<open>
  uint32_t pos = 0;
  for( uint16_t i = 0; i < ICLED_LED_COUNT; i++ )
      for( uint8_t c = 0; c < 3; c++ )
      {
          uint8_t val = led_data[i][c];
          for( int8_t bit = 7; bit >= 0; bit-- )
              pwm_buffer[pos++] = (val & (1 << bit)) ? ICLED_PWM_1 : ICLED_PWM_0;
      }
  for( uint32_t i = 0; i < ICLED_RESET_SLOTS; i++ )
      pwm_buffer[pos++] = 0;
  HAL_TIM_PWM_Stop_DMA( &htim1, TIM_CHANNEL_1 );
  HAL_TIM_PWM_Start_DMA( &htim1, TIM_CHANNEL_1, ( uint32_t* )pwm_buffer, ICLED_BUFFER_SIZE );
  \<close>
  Each loop is one recursive function over the loop counter at its C type; the comparisons
  and the shift are done after the integer promotion of C, that is, on the value read by
  \<open>unat\<close>, \<open>uint\<close> or \<open>sint\<close>. The counter \<^verbatim>\<open>bit\<close> is a signed byte: the loop ends when it
  has gone from 0 to -1.
\<close>

definition pwm_code :: "u8 \<Rightarrow> s8 \<Rightarrow> u16" where
  "pwm_code val b =
     (if (uint val) AND (push_bit (nat (sint b)) 1) \<noteq> 0 then ICLED_PWM_1 else ICLED_PWM_0)"

function show_bit_loop :: "u8 \<Rightarrow> s8 \<Rightarrow> u32 \<Rightarrow> icled_state \<Rightarrow> (u32 \<times> icled_state) option" where
  "show_bit_loop val b pos s =
     (if 0 \<le> sint b
      then do {
        s' \<leftarrow> pwm_write pos (pwm_code val b) s;
        show_bit_loop val (b - 1) (pos + 1) s'
      }
      else Some (pos, s))"
  by pat_completeness auto
termination
proof (relation "measure (\<lambda>(val, b, pos, s). nat (sint b + 1))", goal_cases)
  case 1
  show ?case by simp
next
  case (2 val b pos s s')
  have "sint b < 2 ^ (LENGTH(8) - 1)"
    by (rule sint_lt)
  with 2 have "signed_take_bit 7 (sint b - 1) = sint b - 1"
    by (intro signed_take_bit_int_eq_self) auto
  with 2 show ?case
    by (simp add: sint_word_diff)
qed

function show_chan_loop :: "u16 \<Rightarrow> u8 \<Rightarrow> u32 \<Rightarrow> icled_state \<Rightarrow> (u32 \<times> icled_state) option" where
  "show_chan_loop i c pos s =
     (if unat c < 3
      then do {
        val \<leftarrow> led_read i c s;
        (pos', s') \<leftarrow> show_bit_loop val 7 pos s;
        show_chan_loop i (c + 1) pos' s'
      }
      else Some (pos, s))"
  by pat_completeness auto
termination
  by (relation "measure (\<lambda>(i, c, pos, s). 3 - unat c)") (simp_all add: unat_word_ariths)

function show_led_loop :: "u16 \<Rightarrow> u32 \<Rightarrow> icled_state \<Rightarrow> (u32 \<times> icled_state) option" where
  "show_led_loop i pos s =
     (if unat i < ICLED_LED_COUNT
      then do {
        (pos', s') \<leftarrow> show_chan_loop i 0 pos s;
        show_led_loop (i + 1) pos' s'
      }
      else Some (pos, s))"
  by pat_completeness auto
termination
  by (relation "measure (\<lambda>(i, pos, s). ICLED_LED_COUNT - unat i)")
     (simp_all add: unat_word_ariths ICLED_LED_COUNT_def)

function show_reset_loop :: "u32 \<Rightarrow> u32 \<Rightarrow> icled_state \<Rightarrow> (u32 \<times> icled_state) option" where
  "show_reset_loop i pos s =
     (if unat i < ICLED_RESET_SLOTS
      then do {
        s' \<leftarrow> pwm_write pos 0 s;
        show_reset_loop (i + 1) (pos + 1) s'
      }
      else Some (pos, s))"
  by pat_completeness auto
termination
  by (relation "measure (\<lambda>(i, pos, s). ICLED_RESET_SLOTS - unat i)")
     (simp_all add: unat_word_ariths ICLED_RESET_SLOTS_def)

text \<open>
  The encode step is the part of \<^verbatim>\<open>ICLED_Show\<close> before the two HAL calls: both loops, run
  from \<^verbatim>\<open>pos = 0\<close>. It returns the final value of \<^verbatim>\<open>pos\<close> with the state.
\<close>

definition show_encode :: "icled_state \<Rightarrow> (u32 \<times> icled_state) option" where
  "show_encode s = do {
     (pos, s1) \<leftarrow> show_led_loop 0 0 s;
     show_reset_loop 0 pos s1
   }"

definition ICLED_Show :: "icled_state \<Rightarrow> icled_state option" where
  "ICLED_Show s = do {
     (pos, s1) \<leftarrow> show_encode s;
     let s2 = hal_call HAL_TIM_PWM_Stop_DMA s1;
     Some (hal_call (HAL_TIM_PWM_Start_DMA 0 ICLED_BUFFER_SIZE) s2)
   }"

subsection \<open>\<^verbatim>\<open>ICLED_Clear\<close> and \<^verbatim>\<open>ICLED_Init\<close>\<close>

text \<open>
  \<^verbatim>\<open>
  void ICLED_Clear( void )
  {
      for( uint16_t i = 0; i < ICLED_LED_COUNT; i++ )
          ICLED_SetPixel( i, 0, 0, 0 );
      ICLED_Show( );
  }

  void ICLED_Init( void )
  {
      ICLED_Clear( );
      HAL_TIM_PWM_Start_DMA( &htim1, TIM_CHANNEL_1, ( uint32_t* )pwm_buffer, ICLED_BUFFER_SIZE );
  }
  \<close>
\<close>

function clear_loop :: "u16 \<Rightarrow> icled_state \<Rightarrow> icled_state option" where
  "clear_loop i s =
     (if unat i < ICLED_LED_COUNT
      then do {
        s' \<leftarrow> ICLED_SetPixel i 0 0 0 s;
        clear_loop (i + 1) s'
      }
      else Some s)"
  by pat_completeness auto
termination
  by (relation "measure (\<lambda>(i, s). ICLED_LED_COUNT - unat i)")
     (simp_all add: unat_word_ariths ICLED_LED_COUNT_def)

definition ICLED_Clear :: "icled_state \<Rightarrow> icled_state option" where
  "ICLED_Clear s = do {
     s1 \<leftarrow> clear_loop 0 s;
     ICLED_Show s1
   }"

definition ICLED_Init :: "icled_state \<Rightarrow> icled_state option" where
  "ICLED_Init s = do {
     s1 \<leftarrow> ICLED_Clear s;
     Some (hal_call (HAL_TIM_PWM_Start_DMA 0 ICLED_BUFFER_SIZE) s1)
   }"

text \<open>
  The loop equations recurse without a pattern, so they are unfolded by hand, one
  iteration at a time.
\<close>

declare show_bit_loop.simps [simp del]
declare show_chan_loop.simps [simp del]
declare show_led_loop.simps [simp del]
declare show_reset_loop.simps [simp del]
declare clear_loop.simps [simp del]

text \<open>
  Both arrays have static storage duration, so they start zero-initialised; nothing has
  been observed on the hardware side yet.
\<close>

definition initial_state :: icled_state where
  "initial_state =
     \<lparr>pwm_buffer = replicate ICLED_BUFFER_SIZE 0,
      led_data = replicate ICLED_LED_COUNT [0, 0, 0],
      hw_trace = []\<rparr>"

text \<open>
  A second state for the instances below: the initial state after
  \<^verbatim>\<open>ICLED_SetPixel(0, 1, 0, 0)\<close>, pixel 0 a dim red.
\<close>

definition example_state :: icled_state where
  "example_state = initial_state\<lparr>led_data := (led_data initial_state)[0 := [0, 1, 0]]\<rparr>"

section \<open>Vocabulary for the properties\<close>

text \<open>
  None of the following is driver code. \<open>frame\<close> is the closed form of the buffer content
  that the loops are shown to produce; \<open>emit\<close> is the effect of storing a run of values
  into consecutive slots; the rest reads traces and buffers.
\<close>

definition slot :: "u8 \<Rightarrow> nat \<Rightarrow> u16" where
  "slot val n = (if bit val n then ICLED_PWM_1 else ICLED_PWM_0)"

fun msb_slots :: "u8 \<Rightarrow> nat \<Rightarrow> u16 list" where
  "msb_slots val 0 = []"
| "msb_slots val (Suc k) = slot val k # msb_slots val k"

definition encode_pixel :: "u8 list \<Rightarrow> u16 list" where
  "encode_pixel px = concat (map (\<lambda>val. msb_slots val 8) px)"

definition encode_leds :: "u8 list list \<Rightarrow> u16 list" where
  "encode_leds ld = concat (map encode_pixel ld)"

definition frame :: "u8 list list \<Rightarrow> u16 list" where
  "frame ld = encode_leds ld @ replicate ICLED_RESET_SLOTS 0"

definition emit :: "nat \<Rightarrow> u16 list \<Rightarrow> icled_state \<Rightarrow> icled_state" where
  "emit p xs s =
     s\<lparr>pwm_buffer := take p (pwm_buffer s) @ xs @ drop (p + length xs) (pwm_buffer s),
       hw_trace := hw_trace s @ map (\<lambda>(k, v). Buf_Write k v) (zip [p..<p + length xs] xs)\<rparr>"

text \<open>The HAL calls of a trace, and the buffer positions it stores into, both in order.\<close>

fun is_hal_call :: "event \<Rightarrow> bool" where
  "is_hal_call (Buf_Write p v) = False"
| "is_hal_call HAL_TIM_PWM_Stop_DMA = True"
| "is_hal_call (HAL_TIM_PWM_Start_DMA a n) = True"

definition hal_calls :: "event list \<Rightarrow> event list" where
  "hal_calls tr = filter is_hal_call tr"

fun written_positions :: "event list \<Rightarrow> nat list" where
  "written_positions [] = []"
| "written_positions (Buf_Write p v # es) = p # written_positions es"
| "written_positions (e # es) = written_positions es"

text \<open>
  \<open>stop_before_first_start tr\<close>: scanning \<open>tr\<close> from its beginning, a stop call is met
  before any start call.
\<close>

fun stop_before_first_start :: "event list \<Rightarrow> bool" where
  "stop_before_first_start [] = False"
| "stop_before_first_start (Buf_Write p v # es) = stop_before_first_start es"
| "stop_before_first_start (HAL_TIM_PWM_Stop_DMA # es) = True"
| "stop_before_first_start (HAL_TIM_PWM_Start_DMA a n # es) = False"

text \<open>
  The decoder of the round-trip property, written from the specification's description:
  the data portion of the buffer is cut into groups of 8 slots, each group is read as one
  byte, most significant bit first, with \<open>ICLED_PWM_1\<close> for a set bit, and the bytes are
  grouped into triples.
\<close>

fun chunks :: "nat \<Rightarrow> 'a list \<Rightarrow> 'a list list" where
  "chunks n xs = (if n = 0 \<or> xs = [] then [] else take n xs # chunks n (drop n xs))"

declare chunks.simps [simp del]

definition decode_byte :: "u16 list \<Rightarrow> u8" where
  "decode_byte slots = foldl (\<lambda>acc v. 2 * acc + (if v = ICLED_PWM_1 then 1 else 0)) 0 slots"

definition decode_frame :: "u16 list \<Rightarrow> u8 list list" where
  "decode_frame buf = chunks 3 (map decode_byte (chunks 8 (take (ICLED_LED_COUNT * 24) buf)))"

section \<open>Stores into consecutive slots\<close>

lemma emit_Nil [simp]: "emit p [] s = s"
  by (simp add: emit_def)

lemma led_data_emit [simp]: "led_data (emit p xs s) = led_data s"
  by (simp add: emit_def)

lemma length_emit [simp]:
  "p + length xs \<le> length (pwm_buffer s) \<Longrightarrow>
   length (pwm_buffer (emit p xs s)) = length (pwm_buffer s)"
  by (simp add: emit_def)

lemma emit_emit:
  assumes "p + length xs \<le> length (pwm_buffer s)"
  shows "emit (p + length xs) ys (emit p xs s) = emit p (xs @ ys) s"
proof -
  have "[p..<p + (length xs + length ys)] = [p..<p + length xs] @ [p + length xs..<p + length xs + length ys]"
    by (metis add.assoc le_add1 upt_add_eq_append)
  then have "zip [p..<p + (length xs + length ys)] (xs @ ys) =
        zip [p..<p + length xs] xs @ zip [p + length xs..<p + length xs + length ys] ys"
    by simp
  with assms show ?thesis
    by (simp add: emit_def ac_simps)
qed

lemma pwm_write_emit:
  assumes "p < length (pwm_buffer s)" "length (pwm_buffer s) < 2 ^ 32"
  shows "pwm_write (of_nat p) v s = Some (emit p [v] s)"
proof -
  from assms have "unat (of_nat p :: u32) = p"
    by (simp add: unat_of_nat)
  with assms show ?thesis
    by (simp add: pwm_write_def emit_def upd_conv_take_nth_drop)
qed

section \<open>The loops in closed form\<close>

lemma pwm_code_slot:
  assumes "k < 8"
  shows "pwm_code val (of_nat k) = slot val k"
proof -
  from assms have k: "nat (sint (of_nat k :: s8)) = k"
    by (simp add: Word.signed_of_nat signed_take_bit_int_eq_self)
  have "(uint val AND push_bit k 1 \<noteq> 0) = bit (uint val) k"
    by (simp only: bit_iff_and_push_bit_not_eq_0)
  also from assms have "\<dots> = bit val k"
    by (simp add: bit_uint_iff)
  finally show ?thesis
    unfolding pwm_code_def slot_def k by simp
qed

lemma sint_of_nat_s8: "k < 128 \<Longrightarrow> sint (of_nat k :: s8) = int k"
  by (simp add: Word.signed_of_nat signed_take_bit_int_eq_self)

lemma show_bit_loop_done: "show_bit_loop val (- 1) pos s = Some (pos, s)"
  by (subst show_bit_loop.simps) simp

lemma show_bit_loop_emit:
  assumes "k < 8" "p + Suc k \<le> length (pwm_buffer s)" "length (pwm_buffer s) < 2 ^ 32"
  shows "show_bit_loop val (of_nat k) (of_nat p) s =
           Some (of_nat (p + Suc k), emit p (msb_slots val (Suc k)) s)"
  using assms
proof (induction k arbitrary: p s)
  case 0
  then have "pwm_write (of_nat p) (pwm_code val 0) s = Some (emit p [slot val 0] s)"
    using pwm_write_emit [of p s] pwm_code_slot [of 0 val] by simp
  then show ?case
    by (subst show_bit_loop.simps) (simp add: show_bit_loop_done)
next
  case (Suc k)
  let ?s' = "emit p [slot val (Suc k)] s"
  from Suc.prems have w: "pwm_write (of_nat p) (pwm_code val (of_nat (Suc k))) s = Some ?s'"
    using pwm_write_emit [of p s] pwm_code_slot [of "Suc k" val] by simp
  from Suc.prems have len: "length (pwm_buffer ?s') = length (pwm_buffer s)"
    by simp
  from Suc.prems have "show_bit_loop val (of_nat k) (of_nat (Suc p)) ?s' =
      Some (of_nat (Suc p + Suc k), emit (Suc p) (msb_slots val (Suc k)) ?s')"
    by (intro Suc.IH) (simp_all add: len)
  moreover from Suc.prems have "emit (Suc p) (msb_slots val (Suc k)) ?s' =
      emit p (msb_slots val (Suc (Suc k))) s"
    using emit_emit [of p "[slot val (Suc k)]" s "msb_slots val (Suc k)"] by simp
  moreover from Suc.prems have "0 \<le> sint (of_nat (Suc k) :: s8)"
    by (simp only: sint_of_nat_s8)
  ultimately show ?case
    using w by (subst show_bit_loop.simps) (simp add: ac_simps)
qed

lemma length_msb_slots [simp]: "length (msb_slots val n) = n"
  by (induction n) simp_all

lemma show_chan_loop_emit:
  assumes "c \<le> 3" "i < length (led_data s)" "length (led_data s ! i) = 3" "i < 2 ^ 16"
    "p + 8 * (3 - c) \<le> length (pwm_buffer s)" "length (pwm_buffer s) < 2 ^ 32"
  shows "show_chan_loop (of_nat i) (of_nat c) (of_nat p) s =
           Some (of_nat (p + 8 * (3 - c)), emit p (encode_pixel (drop c (led_data s ! i))) s)"
  using assms
proof (induction "3 - c" arbitrary: c p s)
  case 0
  then show ?case
    by (subst show_chan_loop.simps) (simp add: unat_of_nat encode_pixel_def)
next
  case (Suc n)
  let ?px = "led_data s ! i"
  let ?s' = "emit p (msb_slots (?px ! c) 8) s"
  from Suc have c: "c < 3" by simp
  then have uc: "unat (of_nat c :: u8) = c"
    by (simp add: unat_of_nat)
  from Suc.prems have ui: "unat (of_nat i :: u16) = i"
    by (simp add: unat_of_nat)
  from Suc.prems c have rd: "led_read (of_nat i) (of_nat c) s = Some (?px ! c)"
    by (simp add: led_read_def uc ui)
  from Suc.prems c have bits: "show_bit_loop (?px ! c) 7 (of_nat p) s = Some (of_nat (p + 8), ?s')"
    using show_bit_loop_emit [of 7 p s "?px ! c"] by simp
  from Suc.prems c have len: "length (pwm_buffer ?s') = length (pwm_buffer s)"
    by simp
  from Suc c have "show_chan_loop (of_nat i) (of_nat (Suc c)) (of_nat (p + 8)) ?s' =
      Some (of_nat (p + 8 + 8 * (3 - Suc c)), emit (p + 8) (encode_pixel (drop (Suc c) (led_data ?s' ! i))) ?s')"
    by (intro Suc.hyps) (simp_all add: len)
  moreover from Suc.prems c have "emit (p + 8) (encode_pixel (drop (Suc c) ?px)) ?s' =
      emit p (encode_pixel (drop c ?px)) s"
    using emit_emit [of p "msb_slots (?px ! c) 8" s "encode_pixel (drop (Suc c) ?px)"]
    by (simp add: encode_pixel_def flip: Cons_nth_drop_Suc)
  moreover from c have "p + 8 + 8 * (3 - Suc c) = p + 8 * (3 - c)"
    by simp
  ultimately show ?case
    using c rd bits by (subst show_chan_loop.simps) (simp add: uc ac_simps)
qed

lemma length_encode_pixel_gen: "length (encode_pixel px) = 8 * length px"
  by (induction px) (simp_all add: encode_pixel_def)

lemma length_encode_pixel: "length px = 3 \<Longrightarrow> length (encode_pixel px) = 24"
  by (simp add: length_encode_pixel_gen)

lemma length_encode_leds:
  "list_all (\<lambda>px. length px = 3) ld \<Longrightarrow> length (encode_leds ld) = 24 * length ld"
  by (induction ld) (simp_all add: encode_leds_def length_encode_pixel)

lemma LED_COUNT_u16: "ICLED_LED_COUNT < 2 ^ 16"
  by (simp add: ICLED_LED_COUNT_def)

lemma RESET_SLOTS_u32: "ICLED_RESET_SLOTS < 2 ^ 32"
  by (simp add: ICLED_RESET_SLOTS_def)

lemma BUFFER_SIZE_u32: "ICLED_BUFFER_SIZE < 2 ^ 32"
  by (simp add: ICLED_BUFFER_SIZE_def ICLED_TIMING_BITS_def ICLED_BITS_PER_LED_def
      ICLED_LED_COUNT_def ICLED_RESET_SLOTS_def)

lemma BUFFER_SIZE_eq: "ICLED_BUFFER_SIZE = 24 * ICLED_LED_COUNT + ICLED_RESET_SLOTS"
  by (simp add: ICLED_BUFFER_SIZE_def ICLED_TIMING_BITS_def ICLED_BITS_PER_LED_def)

lemma show_led_loop_emit:
  assumes "i \<le> ICLED_LED_COUNT" "length (led_data s) = ICLED_LED_COUNT"
    "list_all (\<lambda>px. length px = 3) (led_data s)"
    "p + 24 * (ICLED_LED_COUNT - i) \<le> length (pwm_buffer s)" "length (pwm_buffer s) < 2 ^ 32"
  shows "show_led_loop (of_nat i) (of_nat p) s =
           Some (of_nat (p + 24 * (ICLED_LED_COUNT - i)),
                 emit p (encode_leds (drop i (led_data s))) s)"
  using assms
proof (induction "ICLED_LED_COUNT - i" arbitrary: i p s)
  case 0
  then have "unat (of_nat i :: u16) = ICLED_LED_COUNT"
    using LED_COUNT_u16 by (simp add: unat_of_nat)
  with 0 show ?case
    by (subst show_led_loop.simps) (simp add: encode_leds_def)
next
  case (Suc n)
  let ?px = "led_data s ! i"
  let ?s' = "emit p (encode_pixel ?px) s"
  from Suc have i: "i < ICLED_LED_COUNT" by simp
  with LED_COUNT_u16 have i16: "i < 2 ^ 16" by simp
  then have ui: "unat (of_nat i :: u16) = i"
    by (simp add: unat_of_nat)
  from Suc.prems i have px: "length ?px = 3"
    by (simp add: list_all_length)
  from Suc.prems i px i16 have ch: "show_chan_loop (of_nat i) 0 (of_nat p) s = Some (of_nat (p + 24), ?s')"
    using show_chan_loop_emit [of 0 i s p] by simp
  from Suc.prems i px have len: "length (pwm_buffer ?s') = length (pwm_buffer s)"
    by (simp add: length_encode_pixel)
  from Suc i have "show_led_loop (of_nat (Suc i)) (of_nat (p + 24)) ?s' =
      Some (of_nat (p + 24 + 24 * (ICLED_LED_COUNT - Suc i)),
            emit (p + 24) (encode_leds (drop (Suc i) (led_data ?s'))) ?s')"
    by (intro Suc.hyps) (simp_all add: len)
  moreover from Suc.prems i px have "emit (p + 24) (encode_leds (drop (Suc i) (led_data s))) ?s' =
      emit p (encode_leds (drop i (led_data s))) s"
    using emit_emit [of p "encode_pixel ?px" s "encode_leds (drop (Suc i) (led_data s))"]
    by (simp add: encode_leds_def length_encode_pixel flip: Cons_nth_drop_Suc)
  moreover from i have "p + 24 + 24 * (ICLED_LED_COUNT - Suc i) = p + 24 * (ICLED_LED_COUNT - i)"
    by simp
  ultimately show ?case
    using i ch by (subst show_led_loop.simps) (simp add: ui ac_simps)
qed

lemma show_reset_loop_emit:
  assumes "i \<le> ICLED_RESET_SLOTS"
    "p + (ICLED_RESET_SLOTS - i) \<le> length (pwm_buffer s)" "length (pwm_buffer s) < 2 ^ 32"
  shows "show_reset_loop (of_nat i) (of_nat p) s =
           Some (of_nat (p + (ICLED_RESET_SLOTS - i)),
                 emit p (replicate (ICLED_RESET_SLOTS - i) 0) s)"
  using assms
proof (induction "ICLED_RESET_SLOTS - i" arbitrary: i p s)
  case 0
  then have "unat (of_nat i :: u32) = ICLED_RESET_SLOTS"
    using RESET_SLOTS_u32 by (simp add: unat_of_nat)
  with 0 show ?case
    by (subst show_reset_loop.simps) simp
next
  case (Suc n)
  let ?s' = "emit p [0] s"
  from Suc have i: "i < ICLED_RESET_SLOTS" by simp
  with RESET_SLOTS_u32 have ui: "unat (of_nat i :: u32) = i"
    by (simp add: unat_of_nat)
  from Suc.prems i have w: "pwm_write (of_nat p) 0 s = Some ?s'"
    using pwm_write_emit [of p s 0] by simp
  from Suc.prems i have len: "length (pwm_buffer ?s') = length (pwm_buffer s)"
    by simp
  from Suc i have "show_reset_loop (of_nat (Suc i)) (of_nat (Suc p)) ?s' =
      Some (of_nat (Suc p + (ICLED_RESET_SLOTS - Suc i)),
            emit (Suc p) (replicate (ICLED_RESET_SLOTS - Suc i) 0) ?s')"
    by (intro Suc.hyps) (simp_all add: len)
  moreover from Suc.prems i have "emit (Suc p) (replicate (ICLED_RESET_SLOTS - Suc i) 0) ?s' =
      emit p (replicate (ICLED_RESET_SLOTS - i) 0) s"
    using emit_emit [of p "[0]" s "replicate (ICLED_RESET_SLOTS - Suc i) 0"]
    by (simp add: Suc_diff_Suc flip: replicate_Suc)
  moreover from i have "Suc p + (ICLED_RESET_SLOTS - Suc i) = p + (ICLED_RESET_SLOTS - i)"
    by simp
  ultimately show ?case
    using i w by (subst show_reset_loop.simps) (simp add: ui ac_simps)
qed

lemma show_encode_emit:
  assumes "wf_state s"
  shows "show_encode s = Some (of_nat ICLED_BUFFER_SIZE, emit 0 (frame (led_data s)) s)"
proof -
  let ?ld = "led_data s"
  let ?s1 = "emit 0 (encode_leds ?ld) s"
  from assms have wf: "length (pwm_buffer s) = ICLED_BUFFER_SIZE"
    "length ?ld = ICLED_LED_COUNT" "list_all (\<lambda>px. length px = 3) ?ld"
    by (simp_all add: wf_state_def)
  have enc: "length (encode_leds ?ld) = 24 * ICLED_LED_COUNT"
    using wf by (simp add: length_encode_leds)
  have "show_led_loop (of_nat 0) (of_nat 0) s =
      Some (of_nat (0 + 24 * (ICLED_LED_COUNT - 0)), emit 0 (encode_leds (drop 0 ?ld)) s)"
    using wf BUFFER_SIZE_u32 by (intro show_led_loop_emit) (simp_all add: BUFFER_SIZE_eq)
  then have l1: "show_led_loop 0 0 s = Some (of_nat (24 * ICLED_LED_COUNT), ?s1)"
    by simp
  have len: "length (pwm_buffer ?s1) = ICLED_BUFFER_SIZE"
    using wf enc by (simp add: BUFFER_SIZE_eq)
  have "show_reset_loop (of_nat 0) (of_nat (24 * ICLED_LED_COUNT)) ?s1 =
      Some (of_nat (24 * ICLED_LED_COUNT + (ICLED_RESET_SLOTS - 0)),
            emit (24 * ICLED_LED_COUNT) (replicate (ICLED_RESET_SLOTS - 0) 0) ?s1)"
    using BUFFER_SIZE_u32 by (intro show_reset_loop_emit) (simp_all add: len, simp add: BUFFER_SIZE_eq)
  moreover have "emit (24 * ICLED_LED_COUNT) (replicate ICLED_RESET_SLOTS 0) ?s1 =
      emit 0 (frame ?ld) s"
    using emit_emit [of 0 "encode_leds ?ld" s "replicate ICLED_RESET_SLOTS 0"] wf enc
    by (simp add: frame_def BUFFER_SIZE_eq)
  ultimately have l2: "show_reset_loop 0 (of_nat (24 * ICLED_LED_COUNT)) ?s1 =
      Some (of_nat ICLED_BUFFER_SIZE, emit 0 (frame ?ld) s)"
    by (simp add: BUFFER_SIZE_eq)
  show ?thesis
    unfolding show_encode_def l1 using l2 by simp
qed

section \<open>The content of a frame\<close>

lemma msb_slots_nth: "j < n \<Longrightarrow> msb_slots val n ! j = slot val (n - 1 - j)"
proof (induction n arbitrary: j)
  case 0
  then show ?case by simp
next
  case (Suc n)
  then show ?case by (cases j) simp_all
qed

lemma nth_concat_uniform:
  "\<forall>x \<in> set xss. length x = n \<Longrightarrow> i < length xss \<Longrightarrow> j < n \<Longrightarrow>
   concat xss ! (i * n + j) = xss ! i ! j"
proof (induction xss arbitrary: i)
  case Nil
  then show ?case by simp
next
  case (Cons x xss)
  show ?case
  proof (cases i)
    case 0
    with Cons.prems show ?thesis by (simp add: nth_append)
  next
    case (Suc i')
    with Cons.prems have "concat xss ! (i' * n + j) = xss ! i' ! j"
      by (intro Cons.IH) simp_all
    moreover from Cons.prems have "length x = n" by simp
    ultimately show ?thesis
      using Suc by (simp add: nth_append add.assoc)
  qed
qed

lemma encode_pixel_nth:
  assumes "c < length px" "j < 8"
  shows "encode_pixel px ! (c * 8 + j) = slot (px ! c) (7 - j)"
proof -
  have "concat (map (\<lambda>val. msb_slots val 8) px) ! (c * 8 + j) = map (\<lambda>val. msb_slots val 8) px ! c ! j"
    using assms by (intro nth_concat_uniform) auto
  with assms show ?thesis
    by (simp add: encode_pixel_def msb_slots_nth)
qed

lemma encode_leds_nth:
  assumes "list_all (\<lambda>px. length px = 3) ld" "i < length ld" "c < 3" "j < 8"
  shows "encode_leds ld ! (i * 24 + c * 8 + j) = slot (ld ! i ! c) (7 - j)"
proof -
  from assms have px: "length (ld ! i) = 3"
    by (simp add: list_all_length)
  from assms have "c * 8 + j < 24" by simp
  moreover from assms have "\<forall>x \<in> set (map encode_pixel ld). length x = 24"
    by (auto simp: list_all_iff length_encode_pixel)
  ultimately have "concat (map encode_pixel ld) ! (i * 24 + (c * 8 + j)) = map encode_pixel ld ! i ! (c * 8 + j)"
    using assms by (intro nth_concat_uniform) simp_all
  with assms px show ?thesis
    by (simp add: encode_leds_def encode_pixel_nth add.assoc)
qed

lemma length_frame:
  "list_all (\<lambda>px. length px = 3) ld \<Longrightarrow> length ld = ICLED_LED_COUNT \<Longrightarrow>
   length (frame ld) = ICLED_BUFFER_SIZE"
  by (simp add: frame_def length_encode_leds BUFFER_SIZE_eq)

lemma frame_nth_data:
  assumes "list_all (\<lambda>px. length px = 3) ld" "i < length ld" "c < 3" "j < 8"
  shows "frame ld ! (i * 24 + c * 8 + j) = slot (ld ! i ! c) (7 - j)"
proof -
  from assms have "i * 24 + c * 8 + j < 24 * length ld"
    by simp
  with assms show ?thesis
    by (simp add: frame_def nth_append length_encode_leds encode_leds_nth)
qed

lemma drop_frame:
  "list_all (\<lambda>px. length px = 3) ld \<Longrightarrow>
   drop (length ld * 24) (frame ld) = replicate ICLED_RESET_SLOTS 0"
  by (simp add: frame_def length_encode_leds mult.commute)

lemma take_frame:
  "list_all (\<lambda>px. length px = 3) ld \<Longrightarrow> take (length ld * 24) (frame ld) = encode_leds ld"
  by (simp add: frame_def length_encode_leds mult.commute)

lemma map2_upt_nth:
  "map (\<lambda>(k, v). Buf_Write k v) (zip [0..<length xs] xs) =
   map (\<lambda>p. Buf_Write p (xs ! p)) [0..<length xs]"
  by (rule nth_equalityI) simp_all

section \<open>The driver operations on well-formed states\<close>

lemma show_encode_wf:
  assumes "wf_state s"
  shows "show_encode s =
    Some (of_nat ICLED_BUFFER_SIZE,
          s\<lparr>pwm_buffer := frame (led_data s),
            hw_trace := hw_trace s @
              map (\<lambda>p. Buf_Write p (frame (led_data s) ! p)) [0..<ICLED_BUFFER_SIZE]\<rparr>)"
proof -
  from assms have len: "length (frame (led_data s)) = ICLED_BUFFER_SIZE"
    by (simp add: wf_state_def length_frame)
  moreover from assms have "length (pwm_buffer s) = ICLED_BUFFER_SIZE"
    by (simp add: wf_state_def)
  ultimately have "emit 0 (frame (led_data s)) s =
      s\<lparr>pwm_buffer := frame (led_data s),
        hw_trace := hw_trace s @
          map (\<lambda>p. Buf_Write p (frame (led_data s) ! p)) [0..<ICLED_BUFFER_SIZE]\<rparr>"
    using map2_upt_nth [of "frame (led_data s)"] by (simp add: emit_def)
  with assms show ?thesis
    by (simp add: show_encode_emit)
qed

lemma ICLED_Show_wf:
  assumes "wf_state s"
  shows "ICLED_Show s =
    Some (s\<lparr>pwm_buffer := frame (led_data s),
            hw_trace := hw_trace s @
              map (\<lambda>p. Buf_Write p (frame (led_data s) ! p)) [0..<ICLED_BUFFER_SIZE] @
              [HAL_TIM_PWM_Stop_DMA, HAL_TIM_PWM_Start_DMA 0 ICLED_BUFFER_SIZE]\<rparr>)"
  using assms by (simp add: ICLED_Show_def show_encode_wf hal_call_def)

lemma set_three:
  "length px = 3 \<Longrightarrow> px[0 := g, Suc 0 := r, 2 := b] = [g, r, b]"
  by (auto simp: length_Suc_conv numeral_3_eq_3 numeral_2_eq_2)

lemma ICLED_SetPixel_in_range:
  assumes "wf_state s" "unat index < ICLED_LED_COUNT"
  shows "ICLED_SetPixel index r g b s = Some (s\<lparr>led_data := (led_data s)[unat index := [g, r, b]]\<rparr>)"
proof -
  from assms have i: "unat index < length (led_data s)"
    by (simp add: wf_state_def)
  with assms have px: "length (led_data s ! unat index) = 3"
    by (simp add: wf_state_def list_all_length)
  from i px show ?thesis
    using assms(2) by (simp add: ICLED_SetPixel_def led_write_def set_three)
qed

lemma ICLED_SetPixel_out_of_range:
  "ICLED_LED_COUNT \<le> unat index \<Longrightarrow> ICLED_SetPixel index r g b s = Some s"
  by (simp add: ICLED_SetPixel_def)

lemma wf_state_led_update:
  "wf_state s \<Longrightarrow> length px = 3 \<Longrightarrow> wf_state (s\<lparr>led_data := (led_data s)[i := px]\<rparr>)"
  by (auto simp: wf_state_def list_all_iff dest: set_update_subset_insert [THEN subsetD])

lemma clear_loop_wf:
  assumes "wf_state s" "i \<le> ICLED_LED_COUNT"
  shows "clear_loop (of_nat i) s =
    Some (s\<lparr>led_data := take i (led_data s) @ replicate (ICLED_LED_COUNT - i) [0, 0, 0]\<rparr>)"
  using assms
proof (induction "ICLED_LED_COUNT - i" arbitrary: i s)
  case 0
  then have "unat (of_nat i :: u16) = ICLED_LED_COUNT"
    using LED_COUNT_u16 by (simp add: unat_of_nat)
  with 0 show ?case
    by (subst clear_loop.simps) (simp add: wf_state_def)
next
  case (Suc n)
  let ?s' = "s\<lparr>led_data := (led_data s)[i := [0, 0, 0]]\<rparr>"
  from Suc have i: "i < ICLED_LED_COUNT" by simp
  with LED_COUNT_u16 have ui: "unat (of_nat i :: u16) = i"
    by (simp add: unat_of_nat)
  from Suc.prems i have sp: "ICLED_SetPixel (of_nat i) 0 0 0 s = Some ?s'"
    using ICLED_SetPixel_in_range [of s "of_nat i" 0 0 0] by (simp add: ui)
  from Suc.prems have wf': "wf_state ?s'"
    by (intro wf_state_led_update) simp_all
  from Suc i wf' have "clear_loop (of_nat (Suc i)) ?s' =
      Some (?s'\<lparr>led_data := take (Suc i) (led_data ?s') @ replicate (ICLED_LED_COUNT - Suc i) [0, 0, 0]\<rparr>)"
    by (intro Suc.hyps) simp_all
  moreover from Suc.prems i have "take (Suc i) (led_data ?s') @ replicate (ICLED_LED_COUNT - Suc i) [0, 0, 0] =
      take i (led_data s) @ replicate (ICLED_LED_COUNT - i) [0, 0, 0]"
    by (simp add: wf_state_def take_Suc_conv_app_nth Suc_diff_Suc flip: replicate_Suc)
  ultimately show ?case
    using i sp by (subst clear_loop.simps) (simp add: ui ac_simps)
qed

lemma wf_state_cleared:
  "wf_state s \<Longrightarrow> wf_state (s\<lparr>led_data := replicate ICLED_LED_COUNT [0, 0, 0]\<rparr>)"
  by (simp add: wf_state_def list_all_iff)

lemma ICLED_Clear_wf:
  assumes "wf_state s"
  shows "ICLED_Clear s = ICLED_Show (s\<lparr>led_data := replicate ICLED_LED_COUNT [0, 0, 0]\<rparr>)"
  using assms clear_loop_wf [of s 0] by (simp add: ICLED_Clear_def)

section \<open>Decoding\<close>

lemma slot_eq_PWM_1: "(slot val n = ICLED_PWM_1) = bit val n"
  by (simp add: slot_def ICLED_PWM_0_def ICLED_PWM_1_def)

lemma take_bit_Suc_word:
  "take_bit (Suc n) (w :: 'a::len word) = 2 ^ n * of_bool (bit w n) + take_bit n w"
proof -
  define m where "m = unat w"
  have w: "w = of_nat m"
    by (simp add: m_def)
  have b: "bit m n = bit w n"
    by (auto simp: m_def bit_unsigned_iff dest: bit_imp_le_length)
  have "take_bit (Suc n) (of_nat m :: 'a word) = of_nat (take_bit (Suc n) m)"
    by (simp only: take_bit_of_nat)
  also have "\<dots> = of_nat (2 ^ n * of_bool (bit m n) + take_bit n m)"
    by (simp only: take_bit_Suc_from_most)
  also have "\<dots> = 2 ^ n * of_bool (bit m n) + take_bit n (of_nat m)"
    by (simp only: of_nat_add of_nat_mult of_nat_power of_nat_numeral of_nat_of_bool take_bit_of_nat)
  finally show ?thesis
    by (simp only: w [symmetric] b)
qed

lemma foldl_msb_slots:
  "foldl (\<lambda>acc v. 2 * acc + (if v = ICLED_PWM_1 then 1 else 0)) a (msb_slots val n) =
   a * 2 ^ n + take_bit n val"
proof (induction n arbitrary: a)
  case 0
  then show ?case by simp
next
  case (Suc n)
  then show ?case
    by (simp add: slot_eq_PWM_1 take_bit_Suc_word algebra_simps)
qed

lemma decode_byte_msb_slots: "decode_byte (msb_slots val 8) = val"
proof -
  have "take_bit 8 val = val"
    by (intro take_bit_word_eq_self) simp
  then show ?thesis
    by (simp add: decode_byte_def foldl_msb_slots)
qed

lemma chunks_concat:
  "0 < n \<Longrightarrow> \<forall>x \<in> set xss. length x = n \<Longrightarrow> chunks n (concat xss) = xss"
proof (induction xss)
  case Nil
  then show ?case by (simp add: chunks.simps)
next
  case (Cons x xss)
  then have "x \<noteq> []" by auto
  with Cons show ?case
    by (subst chunks.simps) simp
qed

lemma encode_leds_bytes: "encode_leds ld = concat (map (\<lambda>val. msb_slots val 8) (concat ld))"
  by (induction ld) (simp_all add: encode_leds_def encode_pixel_def)

lemma decode_frame_frame:
  assumes "list_all (\<lambda>px. length px = 3) ld" "length ld = ICLED_LED_COUNT"
  shows "decode_frame (frame ld) = ld"
proof -
  from assms have "take (ICLED_LED_COUNT * 24) (frame ld) = encode_leds ld"
    using take_frame [of ld] by simp
  moreover have "chunks 8 (concat (map (\<lambda>val. msb_slots val 8) (concat ld))) =
      map (\<lambda>val. msb_slots val 8) (concat ld)"
    by (intro chunks_concat) auto
  moreover have "map decode_byte (map (\<lambda>val. msb_slots val 8) (concat ld)) = concat ld"
    by (simp add: decode_byte_msb_slots o_def)
  moreover from assms have "chunks 3 (concat ld) = ld"
    by (intro chunks_concat) (auto simp: list_all_iff)
  ultimately show ?thesis
    by (simp add: decode_frame_def encode_leds_bytes)
qed

section \<open>Traces\<close>

lemma hal_calls_writes [simp]: "hal_calls (map (\<lambda>p. Buf_Write p (f p)) ps) = []"
  by (induction ps) (simp_all add: hal_calls_def)

lemma hal_calls_append [simp]: "hal_calls (xs @ ys) = hal_calls xs @ hal_calls ys"
  by (simp add: hal_calls_def)

lemma written_positions_append [simp]:
  "written_positions (xs @ ys) = written_positions xs @ written_positions ys"
  by (induction xs rule: written_positions.induct) simp_all

lemma written_positions_writes [simp]:
  "written_positions (map (\<lambda>p. Buf_Write p (f p)) ps) = ps"
  by (induction ps) simp_all

lemma wf_state_initial: "wf_state initial_state"
  by (simp add: wf_state_def initial_state_def list_all_iff)

lemma wf_state_example: "wf_state example_state"
  using wf_state_led_update [OF wf_state_initial, of "[0, 1, 0]" 0]
  by (simp add: example_state_def)

lemma stop_before_first_start_writes:
  "stop_before_first_start (map (\<lambda>p. Buf_Write p (f p)) ps @ es) = stop_before_first_start es"
  by (induction ps) simp_all

lemma ICLED_Init_wf:
  assumes "wf_state s"
  shows "ICLED_Init s =
    Some (s\<lparr>led_data := replicate ICLED_LED_COUNT [0, 0, 0],
            pwm_buffer := frame (replicate ICLED_LED_COUNT [0, 0, 0]),
            hw_trace := hw_trace s @
              map (\<lambda>p. Buf_Write p (frame (replicate ICLED_LED_COUNT [0, 0, 0]) ! p)) [0..<ICLED_BUFFER_SIZE] @
              [HAL_TIM_PWM_Stop_DMA, HAL_TIM_PWM_Start_DMA 0 ICLED_BUFFER_SIZE,
               HAL_TIM_PWM_Start_DMA 0 ICLED_BUFFER_SIZE]\<rparr>)"
  using assms wf_state_cleared [of s]
  by (simp add: ICLED_Init_def ICLED_Clear_wf ICLED_Show_wf hal_call_def)

section \<open>The claims\<close>

subsection \<open>Encoding\<close>

text \<open>
  C1. For every content of the pixel store, the encode step stores into the data slots in
  increasing position, pixel after pixel, within a pixel the three stored bytes in the
  order of their indices 0, 1, 2 (the bytes G, R, B), within a byte from bit 7 down to
  bit 0: slot \<open>i * 24 + c * 8 + (7 - b)\<close> receives \<open>ICLED_PWM_1\<close> if bit \<open>b\<close> of byte \<open>c\<close> of
  pixel \<open>i\<close> is set and \<open>ICLED_PWM_0\<close> otherwise, and the trace of stores runs through the
  positions in ascending order, each store carrying the slot's final value.
\<close>

theorem show_encode_slot_layout:
  assumes "wf_state s" "i < ICLED_LED_COUNT" "c < 3" "b < 8"
  shows "\<exists>pos s'. show_encode s = Some (pos, s') \<and>
     pwm_buffer s' ! (i * 24 + c * 8 + (7 - b)) =
       (if bit (led_data s ! i ! c) b then ICLED_PWM_1 else ICLED_PWM_0) \<and>
     hw_trace s' = hw_trace s @ map (\<lambda>p. Buf_Write p (pwm_buffer s' ! p)) [0..<ICLED_BUFFER_SIZE]"
proof -
  from assms have "frame (led_data s) ! (i * 24 + c * 8 + (7 - b)) =
      slot (led_data s ! i ! c) (7 - (7 - b))"
    by (intro frame_nth_data) (simp_all add: wf_state_def)
  with assms show ?thesis
    by (simp add: show_encode_wf slot_def)
qed

text \<open>
  The instance: pixel 0 holds red \<open>0x01\<close>; bit 0 of its byte 1 is the last of the 16 slots
  of the bytes G and R, slot 15.
\<close>

theorem show_encode_slot_layout_witness:
  "wf_state example_state \<and> (0::nat) < ICLED_LED_COUNT \<and> (1::nat) < 3 \<and> (0::nat) < 8 \<and>
   (\<exists>pos s'. show_encode example_state = Some (pos, s') \<and>
     pwm_buffer s' ! 15 = ICLED_PWM_1 \<and>
     hw_trace s' = map (\<lambda>p. Buf_Write p (pwm_buffer s' ! p)) [0..<ICLED_BUFFER_SIZE])"
proof -
  have h: "wf_state example_state" "(0::nat) < ICLED_LED_COUNT" "(1::nat) < 3" "(0::nat) < 8"
    by (simp_all add: wf_state_example ICLED_LED_COUNT_def)
  have "led_data example_state ! 0 ! 1 = 1"
    by (simp add: example_state_def initial_state_def ICLED_LED_COUNT_def)
  moreover have "hw_trace example_state = []"
    by (simp add: example_state_def initial_state_def)
  ultimately show ?thesis
    using h show_encode_slot_layout [OF h] by simp
qed

text \<open>
  C5. Decoding the data portion of the encoded buffer gives back the pixel store: the
  same byte triples, in the order of the LED indices.
\<close>

theorem decode_after_encode:
  assumes "wf_state s"
  shows "\<exists>pos s'. show_encode s = Some (pos, s') \<and> decode_frame (pwm_buffer s') = led_data s"
  using assms by (simp add: show_encode_wf decode_frame_frame wf_state_def)

theorem decode_after_encode_witness:
  "wf_state example_state \<and>
   (\<exists>pos s'. show_encode example_state = Some (pos, s') \<and>
      decode_frame (pwm_buffer s') = led_data example_state)"
  using wf_state_example decode_after_encode [OF wf_state_example] by (rule conjI)

text \<open>
  C6. The encode step performs exactly \<open>ICLED_LED_COUNT * 24 + ICLED_RESET_SLOTS\<close> stores:
  it ends with \<^verbatim>\<open>pos\<close> equal to \<open>ICLED_BUFFER_SIZE\<close>, it stores into the positions
  \<open>0, 1, \<dots>, ICLED_BUFFER_SIZE - 1\<close>, each once and none beyond (no access faults), and
  the buffer keeps its size. No slot keeps an old value: whatever the buffer held before,
  the encode step leaves the same content.
\<close>

theorem show_encode_fills_buffer:
  assumes "wf_state s"
  shows "\<exists>pos s'. show_encode s = Some (pos, s') \<and>
     unat pos = ICLED_BUFFER_SIZE \<and>
     ICLED_BUFFER_SIZE = ICLED_LED_COUNT * 24 + ICLED_RESET_SLOTS \<and>
     length (pwm_buffer s') = ICLED_BUFFER_SIZE \<and>
     written_positions (hw_trace s') = written_positions (hw_trace s) @ [0..<ICLED_BUFFER_SIZE] \<and>
     (\<forall>old. length old = ICLED_BUFFER_SIZE \<longrightarrow>
        map_option (pwm_buffer \<circ> snd) (show_encode (s\<lparr>pwm_buffer := old\<rparr>)) =
          Some (pwm_buffer s'))"
proof -
  have "unat (of_nat ICLED_BUFFER_SIZE :: u32) = ICLED_BUFFER_SIZE"
    using BUFFER_SIZE_u32 by (simp add: unat_of_nat)
  moreover from assms have "length (frame (led_data s)) = ICLED_BUFFER_SIZE"
    by (simp add: wf_state_def length_frame)
  moreover have "ICLED_BUFFER_SIZE = ICLED_LED_COUNT * 24 + ICLED_RESET_SLOTS"
    by (simp add: BUFFER_SIZE_eq)
  moreover have "map_option (pwm_buffer \<circ> snd) (show_encode (s\<lparr>pwm_buffer := old\<rparr>)) =
      Some (frame (led_data s))" if "length old = ICLED_BUFFER_SIZE" for old
  proof -
    from assms that have "wf_state (s\<lparr>pwm_buffer := old\<rparr>)"
      by (simp add: wf_state_def)
    then show ?thesis
      by (simp add: show_encode_wf)
  qed
  ultimately show ?thesis
    using assms by (simp add: show_encode_wf)
qed

theorem show_encode_fills_buffer_witness:
  "wf_state example_state \<and>
   (\<exists>pos s'. show_encode example_state = Some (pos, s') \<and>
     unat pos = ICLED_BUFFER_SIZE \<and>
     ICLED_BUFFER_SIZE = ICLED_LED_COUNT * 24 + ICLED_RESET_SLOTS \<and>
     length (pwm_buffer s') = ICLED_BUFFER_SIZE \<and>
     written_positions (hw_trace s') =
       written_positions (hw_trace example_state) @ [0..<ICLED_BUFFER_SIZE] \<and>
     (\<forall>old. length old = ICLED_BUFFER_SIZE \<longrightarrow>
        map_option (pwm_buffer \<circ> snd) (show_encode (example_state\<lparr>pwm_buffer := old\<rparr>)) =
          Some (pwm_buffer s')))"
  using wf_state_example show_encode_fills_buffer [OF wf_state_example] by (rule conjI)

text \<open>
  C7. After the encode step the last \<open>ICLED_RESET_SLOTS\<close> entries of the buffer, the
  positions from \<open>ICLED_LED_COUNT * 24\<close> to \<open>ICLED_BUFFER_SIZE - 1\<close>, are all 0, whatever
  the pixels are.
\<close>

theorem show_encode_reset_slots:
  assumes "wf_state s"
  shows "\<exists>pos s'. show_encode s = Some (pos, s') \<and>
     length (pwm_buffer s') = ICLED_LED_COUNT * 24 + ICLED_RESET_SLOTS \<and>
     drop (ICLED_LED_COUNT * 24) (pwm_buffer s') = replicate ICLED_RESET_SLOTS 0 \<and>
     (\<forall>p. ICLED_LED_COUNT * 24 \<le> p \<and> p < ICLED_BUFFER_SIZE \<longrightarrow> pwm_buffer s' ! p = 0)"
proof -
  let ?f = "frame (led_data s)"
  from assms have len: "length ?f = ICLED_LED_COUNT * 24 + ICLED_RESET_SLOTS"
    by (simp add: wf_state_def length_frame BUFFER_SIZE_eq)
  from assms have tail: "drop (ICLED_LED_COUNT * 24) ?f = replicate ICLED_RESET_SLOTS 0"
    using drop_frame [of "led_data s"] by (simp add: wf_state_def)
  have "?f ! p = 0" if "ICLED_LED_COUNT * 24 \<le> p" "p < ICLED_BUFFER_SIZE" for p
  proof -
    from that obtain k where k: "p = ICLED_LED_COUNT * 24 + k" "k < ICLED_RESET_SLOTS"
      by (auto simp: BUFFER_SIZE_eq le_iff_add)
    with len have "?f ! p = drop (ICLED_LED_COUNT * 24) ?f ! k"
      by simp
    with k show ?thesis
      by (simp add: tail)
  qed
  with len tail assms show ?thesis
    by (simp add: show_encode_wf)
qed

theorem show_encode_reset_slots_witness:
  "wf_state example_state \<and>
   (\<exists>pos s'. show_encode example_state = Some (pos, s') \<and>
     length (pwm_buffer s') = ICLED_LED_COUNT * 24 + ICLED_RESET_SLOTS \<and>
     drop (ICLED_LED_COUNT * 24) (pwm_buffer s') = replicate ICLED_RESET_SLOTS 0 \<and>
     (\<forall>p. ICLED_LED_COUNT * 24 \<le> p \<and> p < ICLED_BUFFER_SIZE \<longrightarrow> pwm_buffer s' ! p = 0))"
  using wf_state_example show_encode_reset_slots [OF wf_state_example] by (rule conjI)

subsection \<open>Transfer sequencing\<close>

text \<open>
  C2. In a call of \<^verbatim>\<open>ICLED_Show\<close> all stores of the encode step come first and leave the
  buffer with its final content; then the stop is called, then the start, with the base
  of the buffer and the length \<open>ICLED_BUFFER_SIZE\<close>, which is the size of the buffer.
  These two are the only HAL calls of the call, so no stop follows the start.
\<close>

theorem ICLED_Show_sequencing:
  assumes "wf_state s"
  shows "\<exists>pos s1 s'. show_encode s = Some (pos, s1) \<and> ICLED_Show s = Some s' \<and>
     hw_trace s1 = hw_trace s @ map (\<lambda>p. Buf_Write p (pwm_buffer s1 ! p)) [0..<ICLED_BUFFER_SIZE] \<and>
     hw_trace s' = hw_trace s1 @
       [HAL_TIM_PWM_Stop_DMA, HAL_TIM_PWM_Start_DMA 0 ICLED_BUFFER_SIZE] \<and>
     pwm_buffer s' = pwm_buffer s1 \<and>
     length (pwm_buffer s') = ICLED_BUFFER_SIZE \<and>
     hal_calls (hw_trace s') = hal_calls (hw_trace s) @
       [HAL_TIM_PWM_Stop_DMA, HAL_TIM_PWM_Start_DMA 0 ICLED_BUFFER_SIZE]"
proof -
  from assms have "length (frame (led_data s)) = ICLED_BUFFER_SIZE"
    by (simp add: wf_state_def length_frame)
  with assms show ?thesis
    by (simp add: show_encode_wf ICLED_Show_wf hal_calls_def)
qed

theorem ICLED_Show_sequencing_witness:
  "wf_state example_state \<and>
   (\<exists>pos s1 s'. show_encode example_state = Some (pos, s1) \<and>
     ICLED_Show example_state = Some s' \<and>
     hw_trace s1 = hw_trace example_state @
       map (\<lambda>p. Buf_Write p (pwm_buffer s1 ! p)) [0..<ICLED_BUFFER_SIZE] \<and>
     hw_trace s' = hw_trace s1 @
       [HAL_TIM_PWM_Stop_DMA, HAL_TIM_PWM_Start_DMA 0 ICLED_BUFFER_SIZE] \<and>
     pwm_buffer s' = pwm_buffer s1 \<and>
     length (pwm_buffer s') = ICLED_BUFFER_SIZE \<and>
     hal_calls (hw_trace s') = hal_calls (hw_trace example_state) @
       [HAL_TIM_PWM_Stop_DMA, HAL_TIM_PWM_Start_DMA 0 ICLED_BUFFER_SIZE])"
  using wf_state_example ICLED_Show_sequencing [OF wf_state_example] by (rule conjI)

text \<open>
  C3, as stated, says that \<^verbatim>\<open>ICLED_Init\<close> issues no stop before its first start. It
  does: \<^verbatim>\<open>ICLED_Init\<close> calls \<^verbatim>\<open>ICLED_Clear\<close>, which calls \<^verbatim>\<open>ICLED_Show\<close>, and that stops and
  starts the transfer before \<^verbatim>\<open>ICLED_Init\<close> reaches its own start. From the
  zero-initialised state the HAL calls of \<^verbatim>\<open>ICLED_Init\<close> are stop, start, start.
\<close>

theorem ICLED_Init_stop_precedes_first_start:
  "map_option (hal_calls \<circ> hw_trace) (ICLED_Init initial_state) =
     Some [HAL_TIM_PWM_Stop_DMA, HAL_TIM_PWM_Start_DMA 0 ICLED_BUFFER_SIZE,
           HAL_TIM_PWM_Start_DMA 0 ICLED_BUFFER_SIZE] \<and>
   map_option (stop_before_first_start \<circ> hw_trace) (ICLED_Init initial_state) = Some True"
proof -
  have "hw_trace initial_state = []"
    by (simp add: initial_state_def)
  then show ?thesis
    using wf_state_initial
    by (simp add: ICLED_Init_wf hal_calls_def stop_before_first_start_writes)
qed

text \<open>
  C3 as amended. \<^verbatim>\<open>ICLED_Init\<close> first runs \<^verbatim>\<open>ICLED_Clear\<close>, which zeroes the pixel store
  and goes through the encode and show path exactly once (one pass over the buffer
  positions, one stop followed by one start over the full buffer), and then calls the
  start over the full buffer once more, with no stop between the two starts.
\<close>

theorem ICLED_Init_calls:
  assumes "wf_state s"
  shows "\<exists>s1 s'. ICLED_Clear s = Some s1 \<and> ICLED_Init s = Some s' \<and>
     led_data s' = replicate ICLED_LED_COUNT [0, 0, 0] \<and>
     hw_trace s' = hw_trace s1 @ [HAL_TIM_PWM_Start_DMA 0 ICLED_BUFFER_SIZE] \<and>
     written_positions (hw_trace s') = written_positions (hw_trace s) @ [0..<ICLED_BUFFER_SIZE] \<and>
     hal_calls (hw_trace s') = hal_calls (hw_trace s) @
       [HAL_TIM_PWM_Stop_DMA, HAL_TIM_PWM_Start_DMA 0 ICLED_BUFFER_SIZE,
        HAL_TIM_PWM_Start_DMA 0 ICLED_BUFFER_SIZE]"
  using assms wf_state_cleared [of s]
  by (simp add: ICLED_Init_wf ICLED_Clear_wf ICLED_Show_wf hal_calls_def)

theorem ICLED_Init_calls_witness:
  "wf_state example_state \<and>
   (\<exists>s1 s'. ICLED_Clear example_state = Some s1 \<and> ICLED_Init example_state = Some s' \<and>
     led_data s' = replicate ICLED_LED_COUNT [0, 0, 0] \<and>
     hw_trace s' = hw_trace s1 @ [HAL_TIM_PWM_Start_DMA 0 ICLED_BUFFER_SIZE] \<and>
     written_positions (hw_trace s') =
       written_positions (hw_trace example_state) @ [0..<ICLED_BUFFER_SIZE] \<and>
     hal_calls (hw_trace s') = hal_calls (hw_trace example_state) @
       [HAL_TIM_PWM_Stop_DMA, HAL_TIM_PWM_Start_DMA 0 ICLED_BUFFER_SIZE,
        HAL_TIM_PWM_Start_DMA 0 ICLED_BUFFER_SIZE])"
  using wf_state_example ICLED_Init_calls [OF wf_state_example] by (rule conjI)

subsection \<open>The pixel store\<close>

text \<open>
  C4. For an index from \<open>ICLED_LED_COUNT\<close> up to the largest 16-bit value and any channel
  values, \<^verbatim>\<open>ICLED_SetPixel\<close> returns normally and leaves the whole state as it was, so
  that an encode step run afterwards does what it would have done before.
\<close>

theorem ICLED_SetPixel_out_of_range_noop:
  assumes "ICLED_LED_COUNT \<le> unat index"
  shows "ICLED_SetPixel index r g b s = Some s \<and>
     (ICLED_SetPixel index r g b s \<bind> show_encode) = show_encode s"
  using assms by (simp add: ICLED_SetPixel_out_of_range)

theorem ICLED_SetPixel_out_of_range_noop_witness:
  "ICLED_LED_COUNT \<le> unat (105 :: u16) \<and>
   ICLED_SetPixel 105 255 255 255 example_state = Some example_state \<and>
   (ICLED_SetPixel 105 255 255 255 example_state \<bind> show_encode) = show_encode example_state"
proof -
  have h: "ICLED_LED_COUNT \<le> unat (105 :: u16)"
    by (simp add: ICLED_LED_COUNT_def)
  show ?thesis
    using h ICLED_SetPixel_out_of_range_noop [OF h, of 255 255 255 example_state] by (rule conjI)
qed

text \<open>
  C8. For an index below \<open>ICLED_LED_COUNT\<close>, \<^verbatim>\<open>ICLED_SetPixel\<close> replaces the stored triple
  of that index by \<open>[g, r, b]\<close>: read back as logical channels (red from byte 1, green
  from byte 0, blue from byte 2) the entry is \<open>(r, g, b)\<close>.
\<close>

theorem ICLED_SetPixel_stores_grb:
  assumes "wf_state s" "unat index < ICLED_LED_COUNT"
  shows "\<exists>s'. ICLED_SetPixel index r g b s = Some s' \<and>
     led_data s' ! unat index = [g, r, b] \<and>
     (led_data s' ! unat index ! 1, led_data s' ! unat index ! 0, led_data s' ! unat index ! 2) =
       (r, g, b)"
  using assms by (simp add: ICLED_SetPixel_in_range wf_state_def)

theorem ICLED_SetPixel_stores_grb_witness:
  "wf_state initial_state \<and> unat (0 :: u16) < ICLED_LED_COUNT \<and>
   (\<exists>s'. ICLED_SetPixel 0 1 2 3 initial_state = Some s' \<and>
     led_data s' ! unat (0 :: u16) = [2, 1, 3] \<and>
     (led_data s' ! unat (0 :: u16) ! 1, led_data s' ! unat (0 :: u16) ! 0,
      led_data s' ! unat (0 :: u16) ! 2) = (1, 2, 3))"
proof -
  have h: "wf_state initial_state" "unat (0 :: u16) < ICLED_LED_COUNT"
    by (simp_all add: wf_state_initial ICLED_LED_COUNT_def)
  show ?thesis
    using h ICLED_SetPixel_stores_grb [OF h, of 1 2 3] by blast
qed

text \<open>
  C9. From any pixel store, \<^verbatim>\<open>ICLED_Clear\<close> sets all \<open>ICLED_LED_COUNT\<close> pixels to (0,0,0),
  touching nothing else, and then runs \<^verbatim>\<open>ICLED_Show\<close> on the result (the encode, the stop
  and the start); when it returns every pixel of the store is (0,0,0).
\<close>

theorem ICLED_Clear_zeroes_then_shows:
  assumes "wf_state s"
  shows "clear_loop 0 s = Some (s\<lparr>led_data := replicate ICLED_LED_COUNT [0, 0, 0]\<rparr>) \<and>
     ICLED_Clear s = ICLED_Show (s\<lparr>led_data := replicate ICLED_LED_COUNT [0, 0, 0]\<rparr>) \<and>
     (\<exists>s'. ICLED_Clear s = Some s' \<and>
        led_data s' = replicate ICLED_LED_COUNT [0, 0, 0] \<and>
        hal_calls (hw_trace s') = hal_calls (hw_trace s) @
          [HAL_TIM_PWM_Stop_DMA, HAL_TIM_PWM_Start_DMA 0 ICLED_BUFFER_SIZE])"
proof -
  from assms have "clear_loop 0 s = Some (s\<lparr>led_data := replicate ICLED_LED_COUNT [0, 0, 0]\<rparr>)"
    using clear_loop_wf [of s 0] by simp
  with assms wf_state_cleared [of s] show ?thesis
    by (simp add: ICLED_Clear_wf ICLED_Show_wf hal_calls_def)
qed

theorem ICLED_Clear_zeroes_then_shows_witness:
  "wf_state example_state \<and>
   clear_loop 0 example_state =
     Some (example_state\<lparr>led_data := replicate ICLED_LED_COUNT [0, 0, 0]\<rparr>) \<and>
   ICLED_Clear example_state =
     ICLED_Show (example_state\<lparr>led_data := replicate ICLED_LED_COUNT [0, 0, 0]\<rparr>) \<and>
   (\<exists>s'. ICLED_Clear example_state = Some s' \<and>
      led_data s' = replicate ICLED_LED_COUNT [0, 0, 0] \<and>
      hal_calls (hw_trace s') = hal_calls (hw_trace example_state) @
        [HAL_TIM_PWM_Stop_DMA, HAL_TIM_PWM_Start_DMA 0 ICLED_BUFFER_SIZE])"
  using wf_state_example ICLED_Clear_zeroes_then_shows [OF wf_state_example] by (rule conjI)

text \<open>
  C10. For an index below \<open>ICLED_LED_COUNT\<close>, \<^verbatim>\<open>ICLED_SetPixel\<close> changes the entry of the
  pixel store at that index and nothing else: the other entries, the timing buffer and
  the trace stay as they were. \<^verbatim>\<open>ICLED_Show\<close> leaves the pixel store as it was.
\<close>

theorem ICLED_SetPixel_Show_frame:
  assumes "wf_state s" "unat index < ICLED_LED_COUNT"
  shows "(\<exists>s'. ICLED_SetPixel index r g b s = Some s' \<and>
       length (led_data s') = length (led_data s) \<and>
       (\<forall>j. j \<noteq> unat index \<longrightarrow> led_data s' ! j = led_data s ! j) \<and>
       pwm_buffer s' = pwm_buffer s \<and>
       hw_trace s' = hw_trace s) \<and>
     (\<exists>s''. ICLED_Show s = Some s'' \<and> led_data s'' = led_data s)"
  using assms by (simp add: ICLED_SetPixel_in_range ICLED_Show_wf)

theorem ICLED_SetPixel_Show_frame_witness:
  "wf_state example_state \<and> unat (7 :: u16) < ICLED_LED_COUNT \<and>
   (\<exists>s'. ICLED_SetPixel 7 1 2 3 example_state = Some s' \<and>
       length (led_data s') = length (led_data example_state) \<and>
       (\<forall>j. j \<noteq> unat (7 :: u16) \<longrightarrow> led_data s' ! j = led_data example_state ! j) \<and>
       pwm_buffer s' = pwm_buffer example_state \<and>
       hw_trace s' = hw_trace example_state) \<and>
   (\<exists>s''. ICLED_Show example_state = Some s'' \<and> led_data s'' = led_data example_state)"
proof -
  have h: "wf_state example_state" "unat (7 :: u16) < ICLED_LED_COUNT"
    by (simp_all add: wf_state_example ICLED_LED_COUNT_def)
  show ?thesis
    using h ICLED_SetPixel_Show_frame [OF h, of 1 2 3] by blast
qed

end
